theory Spec2Isabelle
  imports Complex_Main "HOL-Library.Monad_Syntax"
begin

section \<open>Python values and errors\<close>

text \<open>
  Exceptions of the source are values of \<open>py_error\<close>; a function that can raise returns
  \<open>py_error + 'a\<close> with \<open>Inl\<close> for the exception.
\<close>

datatype py_error = ZeroDivisionError | IndexError | RuntimeError string

text \<open>
  A Python number is an unbounded \<open>int\<close> or a \<open>float\<close>. Floats are taken with exact
  arithmetic: rounding, overflow and underflow of the binary representation are left out.
\<close>

datatype pynum = PyInt int | PyFloat real

fun num_val :: "pynum \<Rightarrow> real" where
  "num_val (PyInt n) = of_int n"
| "num_val (PyFloat r) = r"

text \<open>Python's \<open>int(x)\<close> on a float truncates towards zero.\<close>

definition py_trunc :: "real \<Rightarrow> int" where
  "py_trunc r = (if 0 \<le> r then \<lfloor>r\<rfloor> else \<lceil>r\<rceil>)"

section \<open>Schedule engine\<close>

text \<open>
  \<open>val_interpolate(x1, y1, x2, y2, x)\<close>: the division \<open>(y2 - y1) / (x2 - x1)\<close> raises
  \<open>ZeroDivisionError\<close> when \<open>x1 = x2\<close>; the result is truncated to an integer when
  \<open>y1\<close> is one. Both callers pass integer positions.
\<close>

definition val_interpolate :: "int \<Rightarrow> pynum \<Rightarrow> int \<Rightarrow> pynum \<Rightarrow> int \<Rightarrow> py_error + pynum" where
  "val_interpolate x1 y1 x2 y2 x =
     (if x2 - x1 = 0 then Inl ZeroDivisionError
      else
        let output = num_val y1 + of_int (x - x1) * ((num_val y2 - num_val y1) / of_int (x2 - x1))
        in Inr (case y1 of PyInt _ \<Rightarrow> PyInt (py_trunc output) | PyFloat _ \<Rightarrow> PyFloat output))"

text \<open>
  \<open>num_to_schedule\<close> builds the text \<open>[v]*n+[v']*n'+...\<close>, which the program later
  evaluates to a list. The text is kept as its list of terms \<open>(v, n)\<close>, and
  \<open>eval_schedule\<close> is the evaluation of that Python expression.
\<close>

type_synonym schedule_text = "(pynum \<times> nat) list"

definition eval_schedule :: "schedule_text \<Rightarrow> pynum list" where
  "eval_schedule ts = concat (map (\<lambda>(v, n). replicate n v) ts)"

fun schedule_loop :: "pynum \<Rightarrow> pynum \<Rightarrow> int list \<Rightarrow> schedule_text \<Rightarrow> py_error + schedule_text" where
  "schedule_loop input final [] output = Inr output"
| "schedule_loop input final (i # rest) output =
     (case val_interpolate 1 input 1000 final i of
        Inl e \<Rightarrow> Inl e
      | Inr val \<Rightarrow> schedule_loop input final rest (output @ [(val, 1)]))"

definition num_to_schedule :: "pynum \<Rightarrow> pynum \<Rightarrow> py_error + schedule_text" where
  "num_to_schedule input final =
     (if num_val final \<noteq> - 9999
      then schedule_loop input final [1..999] [(input, 1)]
      else Inr [(input, 1000)])"

text \<open>The value \<open>val_interpolate(1, input, 1000, final, i)\<close>, which never raises.\<close>

definition interp_value :: "pynum \<Rightarrow> pynum \<Rightarrow> int \<Rightarrow> pynum" where
  "interp_value input final i =
     (let output = num_val input + of_int (i - 1) * ((num_val final - num_val input) / 999)
      in case input of PyInt _ \<Rightarrow> PyInt (py_trunc output) | PyFloat _ \<Rightarrow> PyFloat output)"

section \<open>Prompt weights\<close>

text \<open>
  The end of \<open>do_weights\<close>, run for each clip manager: the check for prompts, the check of
  the sum, and the division of the weight tensor by the absolute value of its sum.
  \<open>any_prompts\<close> is \<open>any((sample_prompt, my_settings.image_prompts))\<close>; the tensor is
  the list of its entries.
\<close>

definition do_weights :: "bool \<Rightarrow> real list \<Rightarrow> py_error + real list" where
  "do_weights any_prompts prompt_weights =
     (if \<not> any_prompts
      then Inl (RuntimeError ''No prompts provided. You must provide text_prompts and/or image_prompts.'')
      else if \<bar>sum_list prompt_weights\<bar> < 1 / 1000
      then Inl (RuntimeError ''The weights must not sum to 0.'')
      else Inr (map (\<lambda>w. w / \<bar>sum_list prompt_weights\<bar>) prompt_weights))"

section \<open>Guidance gradient\<close>

text \<open>
  Tensor entries are \<open>float32\<close> values with their special values, which follow IEEE 754
  (signed zeros are not distinguished, and a square root is never negative, so a division
  by a zero magnitude takes the sign of the numerator).
\<close>

datatype fl = Fin real | PInf | NInf | NaN

text \<open>
  The range of \<open>float32\<close>: a result of magnitude \<open>2^128 - 2^103\<close> or more (half a
  step above the largest float) becomes infinite, and a result of magnitude \<open>2^-150\<close> or
  less (half the smallest subnormal) becomes zero. A result in between is kept as it is:
  its rounding to the nearest float is left out.
\<close>

definition flt_overflow :: real where
  "flt_overflow = 2 ^ 128 - 2 ^ 103"

definition flt_underflow :: real where
  "flt_underflow = 1 / 2 ^ 150"

definition flush32 :: "real \<Rightarrow> real" where
  "flush32 r = (if \<bar>r\<bar> \<le> flt_underflow then 0 else r)"

definition round32 :: "real \<Rightarrow> fl" where
  "round32 r = (if \<bar>r\<bar> \<ge> flt_overflow then (if r < 0 then NInf else PInf) else Fin (flush32 r))"

fun fl_neg :: "fl \<Rightarrow> fl" where
  "fl_neg (Fin r) = Fin (- r)"
| "fl_neg PInf = NInf"
| "fl_neg NInf = PInf"
| "fl_neg NaN = NaN"

fun fl_sign :: "fl \<Rightarrow> int" where
  "fl_sign (Fin r) = (if r < 0 then - 1 else if r = 0 then 0 else 1)"
| "fl_sign PInf = 1"
| "fl_sign NInf = - 1"
| "fl_sign NaN = 0"

definition signed_inf :: "int \<Rightarrow> fl" where
  "signed_inf s = (if s < 0 then NInf else PInf)"

fun fl_add :: "fl \<Rightarrow> fl \<Rightarrow> fl" where
  "fl_add NaN _ = NaN"
| "fl_add _ NaN = NaN"
| "fl_add (Fin a) (Fin b) = round32 (a + b)"
| "fl_add PInf NInf = NaN"
| "fl_add NInf PInf = NaN"
| "fl_add PInf _ = PInf"
| "fl_add NInf _ = NInf"
| "fl_add _ PInf = PInf"
| "fl_add _ NInf = NInf"

fun fl_mul :: "fl \<Rightarrow> fl \<Rightarrow> fl" where
  "fl_mul NaN _ = NaN"
| "fl_mul _ NaN = NaN"
| "fl_mul (Fin a) (Fin b) = round32 (a * b)"
| "fl_mul a b = (if fl_sign a * fl_sign b = 0 then NaN else signed_inf (fl_sign a * fl_sign b))"

fun fl_div :: "fl \<Rightarrow> fl \<Rightarrow> fl" where
  "fl_div NaN _ = NaN"
| "fl_div _ NaN = NaN"
| "fl_div (Fin a) (Fin b) =
     (if b = 0 then (if a = 0 then NaN else signed_inf (fl_sign (Fin a))) else round32 (a / b))"
| "fl_div (Fin a) _ = Fin 0"
| "fl_div a (Fin b) = signed_inf (fl_sign a * (if b < 0 then - 1 else 1))"
| "fl_div _ _ = NaN"

text \<open>The square root of a float is within the range again.\<close>

fun fl_sqrt :: "fl \<Rightarrow> fl" where
  "fl_sqrt (Fin r) = (if r < 0 then NaN else Fin (sqrt r))"
| "fl_sqrt PInf = PInf"
| "fl_sqrt NInf = NaN"
| "fl_sqrt NaN = NaN"

text \<open>\<open>t.clamp(max=c)\<close> for a finite bound \<open>c\<close>; a NaN entry stays NaN.\<close>

fun fl_clamp_max :: "real \<Rightarrow> fl \<Rightarrow> fl" where
  "fl_clamp_max c (Fin r) = Fin (min r c)"
| "fl_clamp_max c PInf = Fin c"
| "fl_clamp_max c NInf = NInf"
| "fl_clamp_max c NaN = NaN"

type_synonym tensor = "fl list"

definition isnan_any :: "tensor \<Rightarrow> bool" where
  "isnan_any t = (NaN \<in> set t)"

definition zeros_like :: "tensor \<Rightarrow> tensor" where
  "zeros_like t = map (\<lambda>_. Fin 0) t"

definition fl_sum :: "tensor \<Rightarrow> fl" where
  "fl_sum t = foldl fl_add (Fin 0) t"

definition fl_mean :: "tensor \<Rightarrow> fl" where
  "fl_mean t = fl_div (fl_sum t) (Fin (of_nat (length t)))"

text \<open>\<open>grad.square().mean().sqrt()\<close>\<close>

definition magnitude :: "tensor \<Rightarrow> fl" where
  "magnitude grad = fl_sqrt (fl_mean (map (\<lambda>g. fl_mul g g) grad))"

text \<open>
  \<open>cond_fn\<close> from the point where the aggregated gradient \<open>x_in_grad\<close> is complete.
  \<open>vjp\<close> is the backward pass \<open>torch.autograd.grad(x_in, x, \<cdot>)[0]\<close> through the
  denoising model, \<open>clamp_max\<close> the value \<open>args.clamp_max[1000 - t_int]\<close> of the schedule.
\<close>

definition cond_fn :: "(tensor \<Rightarrow> tensor) \<Rightarrow> bool \<Rightarrow> real \<Rightarrow> tensor \<Rightarrow> tensor \<Rightarrow> tensor" where
  "cond_fn vjp clamp_grad clamp_max x x_in_grad =
     (let (x_is_NaN, grad) =
            (if \<not> isnan_any x_in_grad then (False, map fl_neg (vjp x_in_grad))
             else (True, zeros_like x))
      in if clamp_grad \<and> \<not> x_is_NaN
         then map (\<lambda>g. fl_div (fl_mul g (fl_clamp_max clamp_max (magnitude grad))) (magnitude grad)) grad
         else grad)"


section \<open>Brightness and contrast correction\<close>

record bc_settings =
  steps :: int
  adjustment_interval :: int
  fix_brightness_contrast :: bool
  high_brightness_adjust :: bool
  high_brightness_start :: int
  high_brightness_threshold :: real
  high_brightness_adjust_amount :: real
  low_brightness_adjust :: bool
  low_brightness_start :: int
  low_brightness_threshold :: real
  low_brightness_adjust_amount :: real
  high_contrast_adjust :: bool
  high_contrast_start :: int
  high_contrast_threshold :: real
  high_contrast_adjust_amount :: real
  low_contrast_adjust :: bool
  low_contrast_start :: int
  low_contrast_threshold :: real
  low_contrast_adjust_amount :: real

text \<open>
  The correction block of the sampling loop at step \<open>s\<close>, for the preview \<open>image\<close> with
  its measured \<open>brightness\<close> and \<open>contrast\<close>. \<open>Inr (Some img)\<close>: the enhanced image
  becomes the new \<open>init\<close> and the loop breaks to restart sampling from it; \<open>Inr None\<close>:
  nothing is changed. \<open>s % adjustment_interval\<close> raises for an interval of zero.
  \<open>enh_brightness\<close> and \<open>enh_contrast\<close> stand for \<open>ImageEnhance.Brightness(image).enhance\<close>
  and \<open>ImageEnhance.Contrast(image).enhance\<close>.
\<close>

definition brightness_contrast_correction ::
  "(real \<Rightarrow> 'img \<Rightarrow> 'img) \<Rightarrow> (real \<Rightarrow> 'img \<Rightarrow> 'img) \<Rightarrow> bc_settings \<Rightarrow> int \<Rightarrow> real \<Rightarrow> real \<Rightarrow> 'img
     \<Rightarrow> py_error + 'img option" where
  "brightness_contrast_correction enh_brightness enh_contrast st s brightness contrast img =
     (if adjustment_interval st = 0 then Inl ZeroDivisionError
      else if s mod adjustment_interval st = 0 \<and> (of_int s :: real) < of_int (steps st) * (3 / 10)
              \<and> fix_brightness_contrast st
      then
        if high_brightness_adjust st \<and> s > high_brightness_start st
            \<and> brightness > high_brightness_threshold st
        then Inr (Some (enh_brightness (high_brightness_adjust_amount st) img))
        else if low_brightness_adjust st \<and> s > low_brightness_start st
            \<and> brightness < low_brightness_threshold st
        then Inr (Some (enh_brightness (low_brightness_adjust_amount st) img))
        else if high_contrast_adjust st \<and> s > high_contrast_start st
            \<and> contrast > high_contrast_threshold st
        then Inr (Some (enh_contrast (high_contrast_adjust_amount st) img))
        else if low_contrast_adjust st \<and> s > low_contrast_start st
            \<and> contrast < low_contrast_threshold st
        then Inr (Some (enh_contrast (low_contrast_adjust_amount st) img))
        else Inr None
      else Inr None)"

text \<open>Settings with every correction switched on, checked every 10 steps of 250.\<close>

definition example_settings :: bc_settings where
  "example_settings = \<lparr> steps = 250, adjustment_interval = 10, fix_brightness_contrast = True,
     high_brightness_adjust = True, high_brightness_start = 0, high_brightness_threshold = 180,
     high_brightness_adjust_amount = 85 / 100,
     low_brightness_adjust = True, low_brightness_start = 0, low_brightness_threshold = 40,
     low_brightness_adjust_amount = 115 / 100,
     high_contrast_adjust = True, high_contrast_start = 20, high_contrast_threshold = 80,
     high_contrast_adjust_amount = 85 / 100,
     low_contrast_adjust = True, low_contrast_start = 20, low_contrast_threshold = 20,
     low_contrast_adjust_amount = 2 \<rparr>"

section \<open>Smoothing of schedules\<close>

text \<open>
  Reading \<open>xs[i]\<close> and writing \<open>xs[i] = v\<close> on a Python list: an index below zero counts
  from the end, an index outside the list raises \<open>IndexError\<close>.
\<close>

definition py_index :: "'a list \<Rightarrow> int \<Rightarrow> py_error + 'a" where
  "py_index xs i =
     (if 0 \<le> i \<and> i < int (length xs) then Inr (xs ! nat i)
      else if i < 0 \<and> - int (length xs) \<le> i then Inr (xs ! nat (int (length xs) + i))
      else Inl IndexError)"

definition py_store :: "'a list \<Rightarrow> int \<Rightarrow> 'a \<Rightarrow> py_error + 'a list" where
  "py_store xs i v =
     (if 0 \<le> i \<and> i < int (length xs) then Inr (xs[nat i := v])
      else if i < 0 \<and> - int (length xs) \<le> i then Inr (xs[nat (int (length xs) + i) := v])
      else Inl IndexError)"

text \<open>
  The first loop of \<open>smooth_jazz\<close>: the indices \<open>i\<close> at which the value differs from
  the one before. \<open>i\<close> is the index of the head of the remaining list.
\<close>

fun find_markers :: "pynum \<Rightarrow> int \<Rightarrow> pynum list \<Rightarrow> int list" where
  "find_markers last_num i [] = []"
| "find_markers last_num i (current_num # rest) =
     (if num_val current_num \<noteq> num_val last_num then [i] else []) @ find_markers current_num (i + 1) rest"

text \<open>
  The inner \<open>while i < end\<close> loop. \<open>newschedule\<close> and \<open>schedule\<close> are one list object,
  so the reads of \<open>schedule[start]\<close> and \<open>schedule[end]\<close> see the writes made so far.
  The right-hand side is evaluated before the store.
\<close>

function smooth_zone :: "int \<Rightarrow> int \<Rightarrow> int \<Rightarrow> pynum list \<Rightarrow> py_error + pynum list" where
  "smooth_zone start end i schedule =
     (if i < end then
        (case py_index schedule start of
           Inl e \<Rightarrow> Inl e
         | Inr y1 \<Rightarrow>
             (case py_index schedule end of
                Inl e \<Rightarrow> Inl e
              | Inr y2 \<Rightarrow>
                  (case val_interpolate start y1 end y2 i of
                     Inl e \<Rightarrow> Inl e
                   | Inr v \<Rightarrow>
                       (case py_store schedule i v of
                          Inl e \<Rightarrow> Inl e
                        | Inr schedule' \<Rightarrow> smooth_zone start end (i + 1) schedule'))))
      else Inr schedule)"
  by pat_completeness auto
termination
  by (relation "measure (\<lambda>(start, end, i, schedule). nat (end - i))") auto

declare smooth_zone.simps [simp del]

text \<open>The loop over the markers, with \<open>lastindex\<close> carried along.\<close>

fun smooth_markers :: "int \<Rightarrow> int \<Rightarrow> int list \<Rightarrow> pynum list \<Rightarrow> py_error + pynum list" where
  "smooth_markers zone lastindex [] schedule = Inr schedule"
| "smooth_markers zone lastindex (index # rest) schedule =
     (if real_of_int (index - lastindex) \<ge> real_of_int zone / 2 then
        (let start0 = py_trunc (real_of_int index - real_of_int zone / 2);
             start = (if start0 < 1 then 1 else start0);
             end0 = py_trunc (real_of_int index + real_of_int zone / 2);
             end = (if end0 > int (length schedule) then int (length schedule) else end0)
         in case smooth_zone start end start schedule of
              Inl e \<Rightarrow> Inl e
            | Inr schedule' \<Rightarrow> smooth_markers zone index rest schedule')
      else smooth_markers zone index rest schedule)"

definition smooth_jazz :: "pynum list \<Rightarrow> py_error + pynum list" where
  "smooth_jazz schedule =
     (case schedule of
        [] \<Rightarrow> Inl IndexError
      | first # rest \<Rightarrow>
          (let zone = py_trunc (real (length schedule) * (5 / 100));
               markers = find_markers first 1 rest
           in smooth_markers zone 0 markers schedule))"

section \<open>Tile placement\<close>

type_synonym coords = "(int \<times> int) list"

text \<open>
  The loops of \<open>grid_coords\<close> advance a coordinate by the tile size less the overlap and
  run for ever when that step does not move the coordinate towards the bound. Each is a
  partial function: \<open>None\<close> stands for a loop that never returns. \<open>xs.append(c)\<close> is
  \<open>xs @ [c]\<close>.

  \<open>up_loop\<close> is \<open>while uy > 0\<close> and \<open>down_loop\<close> is
  \<open>while (dy + original_y) <= target_y\<close>; \<open>cx\<close> is the column, \<open>lx\<close> or \<open>rx\<close> in
  the source. Only the lists are used after the loops.
\<close>

partial_function (option) up_loop :: "int \<Rightarrow> int \<Rightarrow> int \<Rightarrow> int \<Rightarrow> coords \<Rightarrow> coords option" where
  "up_loop original_y overlap cx uy uy_list =
     (if uy > 0
      then up_loop original_y overlap cx (uy - original_y + overlap)
             (uy_list @ [(cx, uy - original_y + overlap)])
      else Some uy_list)"

partial_function (option) down_loop :: "int \<Rightarrow> int \<Rightarrow> int \<Rightarrow> int \<Rightarrow> int \<Rightarrow> coords \<Rightarrow> coords option" where
  "down_loop target_y original_y overlap cx dy dy_list =
     (if dy + original_y \<le> target_y
      then down_loop target_y original_y overlap cx (dy + original_y - overlap)
             (dy_list @ [(cx, dy + original_y - overlap)])
      else Some dy_list)"

text \<open>
  \<open>while lx > 0\<close> and \<open>while (rx + original_x) <= target_x\<close>: each pass adds a tile
  in the centre row and then runs the two vertical loops from \<open>y\<close> in the new column.
\<close>

partial_function (option) left_loop ::
  "int \<Rightarrow> int \<Rightarrow> int \<Rightarrow> int \<Rightarrow> int \<Rightarrow> int \<Rightarrow> coords \<Rightarrow> coords \<Rightarrow> coords
     \<Rightarrow> (coords \<times> coords \<times> coords) option" where
  "left_loop target_y original_x original_y overlap y lx lx_list uy_list dy_list =
     (if lx > 0
      then do {
        uy_list' \<leftarrow> up_loop original_y overlap (lx - original_x + overlap) y uy_list;
        dy_list' \<leftarrow> down_loop target_y original_y overlap (lx - original_x + overlap) y dy_list;
        left_loop target_y original_x original_y overlap y (lx - original_x + overlap)
          (lx_list @ [(lx - original_x + overlap, y)]) uy_list' dy_list'
      }
      else Some (lx_list, uy_list, dy_list))"

partial_function (option) right_loop ::
  "int \<Rightarrow> int \<Rightarrow> int \<Rightarrow> int \<Rightarrow> int \<Rightarrow> int \<Rightarrow> int \<Rightarrow> coords \<Rightarrow> coords \<Rightarrow> coords
     \<Rightarrow> (coords \<times> coords \<times> coords) option" where
  "right_loop target_x target_y original_x original_y overlap y rx rx_list uy_list dy_list =
     (if rx + original_x \<le> target_x
      then do {
        uy_list' \<leftarrow> up_loop original_y overlap (rx + original_x - overlap) y uy_list;
        dy_list' \<leftarrow> down_loop target_y original_y overlap (rx + original_x - overlap) y dy_list;
        right_loop target_x target_y original_x original_y overlap y (rx + original_x - overlap)
          (rx_list @ [(rx + original_x - overlap, y)]) uy_list' dy_list'
      }
      else Some (rx_list, uy_list, dy_list))"

declare up_loop.simps [code] down_loop.simps [code] left_loop.simps [code] right_loop.simps [code]

text \<open>
  \<open>grid_coords(target, original, overlap)\<close>. \<open>int(n / 2)\<close> is a float division
  followed by a truncation. The result lists the tiles in the order they are rendered.
\<close>

definition grid_coords :: "int \<times> int \<Rightarrow> int \<times> int \<Rightarrow> int \<Rightarrow> coords option" where
  "grid_coords target original overlap =
     (case target of (target_x, target_y) \<Rightarrow>
      case original of (original_x, original_y) \<Rightarrow>
        let center_x = py_trunc (real_of_int target_x / 2);
            center_y = py_trunc (real_of_int target_y / 2);
            x = center_x - py_trunc (real_of_int original_x / 2);
            y = center_y - py_trunc (real_of_int original_y / 2)
        in do {
          uy_list \<leftarrow> up_loop original_y overlap x y [];
          dy_list \<leftarrow> down_loop target_y original_y overlap x y [];
          (lx_list, uy_list, dy_list) \<leftarrow>
            left_loop target_y original_x original_y overlap y x [] uy_list dy_list;
          (rx_list, uy_list, dy_list) \<leftarrow>
            right_loop target_x target_y original_x original_y overlap y x [] uy_list dy_list;
          Some (rev dy_list @ rev uy_list @ rev rx_list @ rev lx_list @ [(x, y)])
        })"

text \<open>
  \<open>grid_slice(source, overlap, og_size)\<close> crops one tile per coordinate. A slice is kept
  as its crop box \<open>(left, upper, right, lower)\<close> and its position; a box holds the pixels
  with \<open>left \<le> px < right\<close> and \<open>upper \<le> py < lower\<close>.
\<close>

type_synonym box = "int \<times> int \<times> int \<times> int"

definition grid_slice :: "int \<times> int \<Rightarrow> int \<Rightarrow> int \<times> int \<Rightarrow> (box \<times> int \<times> int) list option" where
  "grid_slice source_size overlap og_size =
     (case og_size of (width, height) \<Rightarrow>
        map_option (map (\<lambda>(x, y). ((x, y, x + width, y + height), x, y)))
          (grid_coords source_size og_size overlap))"

fun box_contains :: "box \<Rightarrow> int \<times> int \<Rightarrow> bool" where
  "box_contains (left, upper, right, lower) (px, py) =
     (left \<le> px \<and> px < right \<and> upper \<le> py \<and> py < lower)"

text \<open>A pixel of the canvas is covered when the box of some slice holds it.\<close>

definition covered :: "(box \<times> int \<times> int) list \<Rightarrow> int \<times> int \<Rightarrow> bool" where
  "covered slices p = list_ex (\<lambda>(b, x, y). box_contains b p) slices"

text \<open>The tile of size \<open>w\<close> by \<open>h\<close> placed at \<open>t\<close> holds the pixel \<open>p\<close>.\<close>

fun tile_holds :: "int \<Rightarrow> int \<Rightarrow> int \<times> int \<Rightarrow> int \<times> int \<Rightarrow> bool" where
  "tile_holds w h (tx, ty) (px, py) = (tx \<le> px \<and> px < tx + w \<and> ty \<le> py \<and> py < ty + h)"

section \<open>Alpha mask for the compositing\<close>

text \<open>
  An image of mode \<open>L\<close>: its size and one value per pixel. \<open>Image.new\<close> fills it with
  one value. \<open>ImageDraw.rectangle(shape, fill)\<close> paints the pixels of the image that lie
  between the two corners of \<open>shape\<close>, both corners included and given in either order;
  the fill value is cut to the range of a byte.
\<close>

record image_L =
  im_size :: "int \<times> int"
  getpixel :: "int \<Rightarrow> int \<Rightarrow> int"

definition Image_new :: "int \<times> int \<Rightarrow> int \<Rightarrow> image_L" where
  "Image_new sz color = \<lparr> im_size = sz, getpixel = (\<lambda>x y. color) \<rparr>"

definition clip8 :: "int \<Rightarrow> int" where
  "clip8 v = (if v < 0 then 0 else if v > 255 then 255 else v)"

definition rectangle :: "image_L \<Rightarrow> (int \<times> int) \<times> (int \<times> int) \<Rightarrow> int \<Rightarrow> image_L" where
  "rectangle im shape fill =
     (case shape of ((x0, y0), (x1, y1)) \<Rightarrow>
        im \<lparr> getpixel := (\<lambda>x y.
          if 0 \<le> x \<and> x < fst (im_size im) \<and> 0 \<le> y \<and> y < snd (im_size im)
             \<and> min x0 x1 \<le> x \<and> x \<le> max x0 x1 \<and> min y0 y1 \<le> y \<and> y \<le> max y0 y1
          then clip8 fill else getpixel im x y) \<rparr>)"

text \<open>
  The loop \<open>while i < overlap\<close> that paints the mask, with its variables \<open>a\<close>, \<open>i\<close>,
  \<open>shape\<close> and the image \<open>alpha\<close>.
\<close>

function alpha_loop ::
  "int \<Rightarrow> int \<Rightarrow> int \<Rightarrow> int \<Rightarrow> int \<Rightarrow> (int \<times> int) \<times> (int \<times> int) \<Rightarrow> image_L \<Rightarrow> image_L" where
  "alpha_loop side_x side_y overlap a i shape alpha =
     (if i < overlap
      then alpha_loop side_x side_y overlap (a + 4) (i + 1)
             ((side_x - (i + 1), side_y - (i + 1)), (i + 1, i + 1)) (rectangle alpha shape a)
      else alpha)"
  by pat_completeness auto
termination
  by (relation "measure (\<lambda>(side_x, side_y, overlap, a, i, shape, alpha). nat (overlap - i))") auto

declare alpha_loop.simps [simp del]

text \<open>The mask for tiles of \<open>side_x\<close> by \<open>side_y\<close> and the overlap \<open>gobig_overlap\<close>.\<close>

definition alpha_mask :: "int \<Rightarrow> int \<Rightarrow> int \<Rightarrow> image_L" where
  "alpha_mask side_x side_y gobig_overlap =
     alpha_loop side_x side_y gobig_overlap 0 0 ((side_x, side_y), (0, 0))
       (Image_new (side_x, side_y) 255)"

text \<open>The number of the ring of a pixel, counted from the top and left edges.\<close>

definition ring :: "int \<Rightarrow> int \<Rightarrow> int \<Rightarrow> int \<Rightarrow> int" where
  "ring side_x side_y x y = min (min x y) (min (side_x - x) (side_y - y))"

section \<open>Facts about the schedule engine\<close>

lemma val_interpolate_1000:
  "val_interpolate 1 input 1000 final i = Inr (interp_value input final i)"
  by (simp add: val_interpolate_def interp_value_def Let_def)

lemma schedule_loop_eq:
  "schedule_loop input final is out = Inr (out @ map (\<lambda>i. (interp_value input final i, 1)) is)"
  by (induction "is" arbitrary: out) (simp_all add: val_interpolate_1000)

lemma eval_schedule_Cons: "eval_schedule ((v, 1) # ts) = v # eval_schedule ts"
  by (simp add: eval_schedule_def)

lemma eval_schedule_ones: "eval_schedule (map (\<lambda>i. (f i, 1)) is) = map f is"
  by (induction "is") (simp_all add: eval_schedule_def)

lemma num_to_schedule_eval:
  assumes "num_val final \<noteq> - 9999"
  shows "num_to_schedule input final = Inr ((input, 1) # map (\<lambda>i. (interp_value input final i, 1)) [1..999])"
    and "eval_schedule ((input, 1) # map (\<lambda>i. (interp_value input final i, 1)) [1..999])
           = input # map (interp_value input final) [1..999]"
  using assms
  by (simp_all add: num_to_schedule_def schedule_loop_eq eval_schedule_Cons eval_schedule_ones
      del: One_nat_def)

lemma upto_last: "i \<le> j \<Longrightarrow> last [i..j] = j"
  by (simp add: upto_rec2)

lemma schedule_last:
  "last (input # map (interp_value input final) [1..999]) = interp_value input final 999"
  by (simp add: last_map upto_last)

text \<open>
  The interpolated values start at \<open>input\<close> and move towards \<open>final\<close> without
  turning back; the truncation of an integer schedule keeps the order.
\<close>

lemma py_trunc_mono:
  assumes "a \<le> b"
  shows "py_trunc a \<le> py_trunc b"
proof -
  consider "0 \<le> a" | "b < 0" | "a < 0" "0 \<le> b" using assms by linarith
  then show ?thesis
  proof cases
    case 1
    with assms show ?thesis by (simp add: py_trunc_def floor_mono)
  next
    case 2
    with assms show ?thesis by (simp add: py_trunc_def ceiling_mono)
  next
    case 3
    have "\<lceil>a\<rceil> \<le> 0" using 3 by (simp add: ceiling_le_iff)
    moreover have "0 \<le> \<lfloor>b\<rfloor>" using 3 by simp
    ultimately have "\<lceil>a\<rceil> \<le> \<lfloor>b\<rfloor>" by (rule order_trans)
    with 3 show ?thesis by (simp add: py_trunc_def)
  qed
qed

lemma interp_value_mono:
  assumes "num_val input \<le> num_val final" "i \<le> j"
  shows "num_val (interp_value input final i) \<le> num_val (interp_value input final j)"
proof -
  let ?f = "\<lambda>k. num_val input + real_of_int (k - 1) * ((num_val final - num_val input) / 999)"
  have "?f i \<le> ?f j"
    using assms by (simp add: mult_right_mono divide_right_mono)
  then show ?thesis
    by (cases input) (simp_all add: interp_value_def Let_def py_trunc_mono)
qed

lemma interp_value_first: "interp_value input final 1 = input"
  by (cases input) (simp_all add: interp_value_def py_trunc_def Let_def)

text \<open>
  C1. The claim: expanding a pair \<open>(v1, v2)\<close> gives a schedule that starts at \<open>v1\<close>, ends
  at \<open>v2\<close> and is monotone in between. The schedule of \<open>num_to_schedule(5, 6)\<close> has 1000
  elements, starts at 5 and ends at 5: the text opens with \<open>[input]*1\<close>, the loop runs
  \<open>i\<close> over \<open>1 .. 999\<close> only, so position 1 is emitted twice and the position 1000, where
  the interpolation reaches \<open>final\<close>, is never emitted. The last element is the
  interpolation at 999, \<open>int(5 + 998 / 999) = 5\<close>.
\<close>

theorem num_to_schedule_5_6_ends_at_5:
  "\<exists>ts. num_to_schedule (PyInt 5) (PyInt 6) = Inr ts
      \<and> length (eval_schedule ts) = 1000
      \<and> hd (eval_schedule ts) = PyInt 5
      \<and> last (eval_schedule ts) = PyInt 5
      \<and> last (eval_schedule ts) \<noteq> PyInt 6"
proof -
  have ne: "num_val (PyInt 6) \<noteq> - 9999" by simp
  have v: "interp_value (PyInt 5) (PyInt 6) 999 = PyInt 5"
    by (simp add: interp_value_def py_trunc_def)
  show ?thesis
    unfolding num_to_schedule_eval(1)[OF ne]
    by (simp only: sum.inject ex_simps simp_thms num_to_schedule_eval(2)[OF ne] schedule_last v)
       simp
qed

section \<open>Facts about the smoothing of schedules\<close>

text \<open>
  A zone that ends before the last index is smoothed without an error, and the schedule
  keeps its length.
\<close>

lemma smooth_zone_in_bounds:
  assumes "0 \<le> start" "start \<le> i" "end < int (length schedule)"
  shows "\<exists>s'. smooth_zone start end i schedule = Inr s' \<and> length s' = length schedule"
  using assms
proof (induction "nat (end - i)" arbitrary: i schedule)
  case 0
  then have "\<not> i < end" by simp
  then show ?case by (subst smooth_zone.simps) simp
next
  case (Suc n)
  then have lt: "i < end" by linarith
  obtain y1 where y1: "py_index schedule start = Inr y1"
    using Suc.prems lt by (simp add: py_index_def)
  obtain y2 where y2: "py_index schedule end = Inr y2"
    using Suc.prems lt by (simp add: py_index_def)
  obtain v where v: "val_interpolate start y1 end y2 i = Inr v"
    using Suc.prems lt by (simp add: val_interpolate_def Let_def)
  have st: "py_store schedule i v = Inr (schedule[nat i := v])"
    using Suc.prems lt by (simp add: py_store_def)
  have "n = nat (end - (i + 1))" using Suc.hyps(2) by linarith
  from Suc.hyps(1) [OF this, of "schedule[nat i := v]"] Suc.prems
  obtain s' where "smooth_zone start end (i + 1) (schedule[nat i := v]) = Inr s'"
    "length s' = length schedule"
    by auto
  then show ?case
    using lt y1 y2 v st by (subst smooth_zone.simps) simp
qed

text \<open>
  A zone whose end is the length of the schedule cannot be smoothed: the first pass of
  the loop reads \<open>schedule[end]\<close>, one past the last element.
\<close>

lemma smooth_zone_end_at_length:
  assumes "0 \<le> start" "start < int (length schedule)" "i < int (length schedule)"
  shows "smooth_zone start (int (length schedule)) i schedule = Inl IndexError"
  using assms by (subst smooth_zone.simps) (simp add: py_index_def)

lemma find_markers_cong: "num_val v = num_val l \<Longrightarrow> find_markers l i xs = find_markers v i xs"
  by (cases xs) simp_all

lemma find_markers_same:
  "num_val v = num_val l \<Longrightarrow> find_markers l i (replicate n v @ xs) = find_markers v (i + int n) xs"
proof (induction n arbitrary: i l)
  case 0
  then show ?case using find_markers_cong [of v l i xs] by simp
next
  case (Suc n)
  have "find_markers l i (replicate (Suc n) v @ xs) = find_markers v (i + 1) (replicate n v @ xs)"
    using Suc.prems by simp
  also have "\<dots> = find_markers v (i + 1 + int n) xs"
    by (rule Suc.IH) simp
  also have "i + 1 + int n = i + int (Suc n)"
    by simp
  finally show ?case .
qed

lemma find_markers_step_up:
  "find_markers (PyInt 1) 1 (replicate 989 (PyInt 1) @ replicate 10 (PyInt 2)) = [990]"
proof -
  have ten: "replicate 10 (PyInt 2) = PyInt 2 # replicate 9 (PyInt 2) @ []"
    by (simp add: numeral_eq_Suc)
  have "find_markers (PyInt 1) 1 (replicate 989 (PyInt 1) @ replicate 10 (PyInt 2))
          = find_markers (PyInt 1) (1 + int 989) (replicate 10 (PyInt 2))"
    by (rule find_markers_same) simp
  also have "\<dots> = [990] @ find_markers (PyInt 2) 991 (replicate 9 (PyInt 2) @ [])"
    unfolding ten by simp
  also have "find_markers (PyInt 2) 991 (replicate 9 (PyInt 2) @ []) = find_markers (PyInt 2) (991 + int 9) []"
    by (rule find_markers_same) simp
  finally show ?thesis by simp
qed

text \<open>
  C5. The claim: every zone of \<open>smooth_jazz\<close> stays within \<open>[1, length]\<close>, every index
  read or written during the re-interpolation is in bounds, and change-points too close to
  the one before are left as they are. The zones do stay within \<open>[1, length]\<close>, but
  \<open>end\<close> is used as an index, and \<open>end = length\<close> is one past the last element. For the
  schedule \<open>[1]*990 + [2]*10\<close> the zone is 50, the only marker is 990, \<open>end\<close> is cut from
  1015 to 1000, and the read of \<open>schedule[1000]\<close> raises \<open>IndexError\<close>.
\<close>

theorem smooth_jazz_change_near_end_raises:
  "smooth_jazz (replicate 990 (PyInt 1) @ replicate 10 (PyInt 2)) = Inl IndexError"
proof -
  let ?s = "replicate 990 (PyInt 1) @ replicate 10 (PyInt 2)"
  have split: "?s = PyInt 1 # (replicate 989 (PyInt 1) @ replicate 10 (PyInt 2))"
  proof -
    have "(990::nat) = Suc 989" by simp
    then show ?thesis by (simp only: replicate_Suc append_Cons)
  qed
  have len: "length ?s = 1000" by simp
  have zone: "py_trunc (real (length ?s) * (5 / 100)) = 50"
    by (simp add: py_trunc_def)
  have len': "int (length ?s) = 1000" by simp
  have z: "smooth_zone 965 1000 965 ?s = Inl IndexError"
    using smooth_zone_end_at_length [of 965 ?s 965] unfolding len' by simp
  have m: "smooth_markers 50 0 [990] ?s = Inl IndexError"
    using z by (simp add: py_trunc_def Let_def)
  have "smooth_jazz ?s = smooth_markers 50 0 [990] ?s"
    unfolding smooth_jazz_def zone
    by (subst (2) split) (simp add: find_markers_step_up Let_def)
  with m show ?thesis by simp
qed

section \<open>Facts about the prompt weights\<close>

lemma sum_list_div: "sum_list (map (\<lambda>w. w / c) ws) = sum_list ws / (c::real)"
  by (induction ws) (simp_all add: add_divide_distrib)

lemma sum_list_abs_nonneg:
  "\<forall>w\<in>set ws. 0 \<le> w \<Longrightarrow> sum_list (map abs ws) = \<bar>sum_list (ws :: real list)\<bar>"
  by (induction ws) (auto simp: sum_list_nonneg)

lemma sum_list_abs_nonpos:
  assumes "\<forall>w\<in>set ws. w \<le> 0"
  shows "sum_list (map abs ws) = \<bar>sum_list (ws :: real list)\<bar>"
proof -
  have "sum_list (map abs ws) = - sum_list ws"
    using assms by (induction ws) simp_all
  moreover have "sum_list ws \<le> 0"
    using assms by (simp add: sum_list_nonpos)
  ultimately show ?thesis by simp
qed

text \<open>
  C2, as stated: after the normalization the sum of the absolute values of the weights is 1.
  It fails for weights of mixed sign: \<open>[2, -1]\<close> sums to 1, which is not negligible, the
  division by \<open>|1|\<close> leaves the weights as they are, and their absolute values sum to 3.
\<close>

theorem do_weights_mixed_signs_counterexample:
  "\<not> \<bar>sum_list [2, - 1 :: real]\<bar> < 1 / 1000
   \<and> do_weights True [2, - 1] = Inr [2, - 1]
   \<and> sum_list (map abs [2, - 1 :: real]) \<noteq> 1"
  by (simp add: do_weights_def)

text \<open>
  C2, amended: whenever \<open>do_weights\<close> returns (the sum of the weights is not negligible),
  the absolute value of the sum of the resulting weights is 1; when no weight is negative,
  or none is positive, this is also the sum of their absolute values.
\<close>

theorem do_weights_normalizes_sum:
  assumes "do_weights any_prompts prompt_weights = Inr ws"
  shows "\<bar>sum_list ws\<bar> = 1
    \<and> ((\<forall>w\<in>set prompt_weights. 0 \<le> w) \<or> (\<forall>w\<in>set prompt_weights. w \<le> 0)
         \<longrightarrow> sum_list (map abs ws) = 1)"
proof -
  let ?S = "\<bar>sum_list prompt_weights\<bar>"
  from assms have pos: "0 < ?S" and ws: "ws = map (\<lambda>w. w / ?S) prompt_weights"
    by (auto simp: do_weights_def split: if_splits)
  have abs_sum: "\<bar>sum_list ws\<bar> = 1"
    using pos by (simp add: ws sum_list_div)
  have "sum_list (map abs ws) = sum_list (map abs prompt_weights) / ?S"
    using sum_list_div [of ?S "map abs prompt_weights"] by (simp add: ws comp_def)
  moreover have "(\<forall>w\<in>set prompt_weights. 0 \<le> w) \<or> (\<forall>w\<in>set prompt_weights. w \<le> 0)
      \<Longrightarrow> sum_list (map abs prompt_weights) = ?S"
    using sum_list_abs_nonneg sum_list_abs_nonpos by blast
  ultimately show ?thesis using abs_sum pos by auto
qed

theorem do_weights_normalizes_sum_witness:
  "do_weights True [3, 1] = Inr [3 / 4, 1 / 4]
   \<and> ((\<forall>w\<in>set [3, 1 :: real]. 0 \<le> w) \<or> (\<forall>w\<in>set [3, 1 :: real]. w \<le> 0))
   \<and> \<bar>sum_list [3 / 4, 1 / 4 :: real]\<bar> = 1 \<and> sum_list (map abs [3 / 4, 1 / 4 :: real]) = 1"
proof -
  have h: "do_weights True [3, 1] = Inr [3 / 4, 1 / 4]"
    by (simp add: do_weights_def)
  show ?thesis using h do_weights_normalizes_sum [OF h] by simp
qed

text \<open>
  C9: when the absolute value of the sum of the weights is below the tolerance \<open>1e-3\<close>,
  \<open>do_weights\<close> raises a \<open>RuntimeError\<close> and no normalized weights are produced: the
  error about the sum when there are prompts, the error about missing prompts otherwise.
\<close>

theorem do_weights_rejects_negligible_sum:
  "\<bar>sum_list prompt_weights\<bar> < 1 / 1000 \<Longrightarrow>
   do_weights any_prompts prompt_weights =
     Inl (RuntimeError (if any_prompts then ''The weights must not sum to 0.''
        else ''No prompts provided. You must provide text_prompts and/or image_prompts.''))"
  by (simp add: do_weights_def)

theorem do_weights_rejects_negligible_sum_witness:
  "\<bar>sum_list [1, - 1 :: real]\<bar> < 1 / 1000
   \<and> do_weights True [1, - 1] = Inl (RuntimeError ''The weights must not sum to 0.'')"
  using do_weights_rejects_negligible_sum [of "[1, - 1]" True]
  by simp

section \<open>Facts about the guidance gradient\<close>







lemma round32_Fin: "round32 r = Fin v \<Longrightarrow> \<bar>r\<bar> < flt_overflow \<and> v = flush32 r"
  by (simp add: round32_def split: if_splits)















text \<open>
  C3, as stated: whenever the aggregated gradient has a non-finite entry, NaN or infinite,
  \<open>cond_fn\<close> returns zeros. The guard of the code is \<open>torch.isnan\<close> alone, so an
  aggregated gradient with an infinite entry and no NaN takes the computed branch: with the
  identity as backward pass the result is the infinite gradient, negated, and with clamping
  switched on it is \<open>inf * 1 / inf\<close>, a NaN.
\<close>

theorem cond_fn_infinite_counterexample:
  "PInf \<in> set [PInf]
   \<and> cond_fn id False 1 [Fin 0] [PInf] = [NInf]
   \<and> cond_fn id False 1 [Fin 0] [PInf] \<noteq> zeros_like [Fin 0]
   \<and> cond_fn id True 1 [Fin 0] [PInf] = [NaN]"
  by (simp add: cond_fn_def isnan_any_def magnitude_def fl_mean_def fl_sum_def signed_inf_def
      zeros_like_def)

text \<open>
  C3, amended: whenever the aggregated gradient has a NaN entry, \<open>cond_fn\<close> returns a
  gradient of zeros of the shape of the input latent in place of the computed one, with or
  without clamping, and returns normally.
\<close>

theorem cond_fn_nan_gives_zeros:
  "isnan_any x_in_grad \<Longrightarrow>
   cond_fn vjp clamp_grad clamp_max x x_in_grad = zeros_like x
   \<and> length (cond_fn vjp clamp_grad clamp_max x x_in_grad) = length x"
  by (simp add: cond_fn_def zeros_like_def)

theorem cond_fn_nan_gives_zeros_witness:
  "isnan_any [Fin 1, NaN] \<and> cond_fn id True 1 [Fin 2, Fin 3] [Fin 1, NaN] = [Fin 0, Fin 0]"
  using cond_fn_nan_gives_zeros [of "[Fin 1, NaN]" id True 1 "[Fin 2, Fin 3]"]
  by (simp add: isnan_any_def zeros_like_def)




text \<open>The gradient \<open>[2, 2]\<close> has the magnitude 2 and is halved by a clamp value of 1.\<close>

lemma cond_fn_clamp_example:
  "cond_fn id True 1 [Fin 0, Fin 0] [Fin (- 2), Fin (- 2)] = [Fin 1, Fin 1]"
  by (simp add: cond_fn_def isnan_any_def magnitude_def fl_mean_def fl_sum_def round32_def
      flush32_def flt_overflow_def flt_underflow_def)

section \<open>Facts about the brightness and contrast correction\<close>

text \<open>
  C8: unless the correction is enabled, the step \<open>s\<close> is a multiple of the adjustment
  interval and \<open>s < 0.3 * steps\<close>, the correction block changes nothing at step \<open>s\<close>:
  it returns without a new image (or, for an interval of zero, raises before anything is
  changed).
\<close>

theorem correction_only_when_due:
  "\<not> (fix_brightness_contrast st \<and> s mod adjustment_interval st = 0
        \<and> real_of_int s < real_of_int (steps st) * (3 / 10)) \<Longrightarrow>
   brightness_contrast_correction enh_b enh_c st s brightness contrast img
     = (if adjustment_interval st = 0 then Inl ZeroDivisionError else Inr None)"
  by (auto simp add: brightness_contrast_correction_def)

theorem correction_only_when_due_witness:
  "\<not> (fix_brightness_contrast example_settings \<and> 80 mod adjustment_interval example_settings = 0
        \<and> real_of_int 80 < real_of_int (steps example_settings) * (3 / 10))
   \<and> brightness_contrast_correction (\<lambda>a i. a * i) (\<lambda>a i. a + i) example_settings 80 200 50 (1::real)
       = Inr None"
  using correction_only_when_due
    [of example_settings 80 "\<lambda>a i. a * i" "\<lambda>a i. a + i" 200 50 "1::real"]
  by (simp add: example_settings_def)

text \<open>Inside the window the correction does fire: step 70 of 250 with a bright preview.\<close>

lemma correction_fires_at_70:
  "brightness_contrast_correction (\<lambda>a i. a * i) (\<lambda>a i. a + i) example_settings 70 200 50 (1::real)
     = Inr (Some (85 / 100))"
  by (simp add: example_settings_def brightness_contrast_correction_def)

section \<open>Facts about the tile placement\<close>

text \<open>The vertical loops return when the step is positive, and their tiles then leave no gap.\<close>

lemma up_loop_terminates:
  "overlap < original_y \<Longrightarrow> \<exists>r. up_loop original_y overlap cx uy uy_list = Some r"
proof (induction "nat uy" arbitrary: uy uy_list rule: less_induct)
  case less
  show ?case
  proof (cases "0 < uy")
    case True
    with less.prems have "nat (uy - original_y + overlap) < nat uy" by simp
    from less.hyps [OF this less.prems] True show ?thesis
      by (subst up_loop.simps) simp
  next
    case False
    then show ?thesis by (subst up_loop.simps) simp
  qed
qed

lemma up_loop_covers:
  assumes "0 \<le> overlap" "overlap < original_y"
  shows "\<exists>r. up_loop original_y overlap cx uy uy_list = Some r \<and> set uy_list \<subseteq> set r
    \<and> (\<forall>py. 0 \<le> py \<and> py < uy \<longrightarrow> (\<exists>v. (cx, v) \<in> set r \<and> v \<le> py \<and> py < v + original_y))"
proof (induction "nat uy" arbitrary: uy uy_list rule: less_induct)
  case less
  show ?case
  proof (cases "0 < uy")
    case True
    let ?uy = "uy - original_y + overlap"
    from assms True have "nat ?uy < nat uy" by simp
    from less.hyps [OF this, of "uy_list @ [(cx, ?uy)]"]
    obtain r where r: "up_loop original_y overlap cx ?uy (uy_list @ [(cx, ?uy)]) = Some r"
      and sub: "set (uy_list @ [(cx, ?uy)]) \<subseteq> set r"
      and cov: "\<forall>py. 0 \<le> py \<and> py < ?uy \<longrightarrow> (\<exists>v. (cx, v) \<in> set r \<and> v \<le> py \<and> py < v + original_y)"
      by blast
    have eq: "up_loop original_y overlap cx uy uy_list = Some r"
      using True r by (subst up_loop.simps) simp
    have "\<exists>v. (cx, v) \<in> set r \<and> v \<le> py \<and> py < v + original_y" if "0 \<le> py" "py < uy" for py
    proof (cases "py < ?uy")
      case True
      with cov that show ?thesis by blast
    next
      case False
      moreover have "(cx, ?uy) \<in> set r" using sub by simp
      moreover have "py < ?uy + original_y" using that assms by simp
      ultimately show ?thesis by (intro exI [of _ ?uy]) simp
    qed
    with eq sub show ?thesis by auto
  next
    case False
    then show ?thesis by (subst up_loop.simps) auto
  qed
qed


lemma down_loop_terminates:
  "overlap < original_y \<Longrightarrow> \<exists>r. down_loop target_y original_y overlap cx dy dy_list = Some r"
proof (induction "nat (target_y - dy - original_y + 1)" arbitrary: dy dy_list rule: less_induct)
  case less
  show ?case
  proof (cases "dy + original_y \<le> target_y")
    case True
    with less.prems
    have "nat (target_y - (dy + original_y - overlap) - original_y + 1)
            < nat (target_y - dy - original_y + 1)"
      by simp
    from less.hyps [OF this less.prems] True show ?thesis
      by (subst down_loop.simps) simp
  next
    case False
    then show ?thesis by (subst down_loop.simps) simp
  qed
qed

lemma down_loop_covers:
  assumes "0 \<le> overlap" "overlap < original_y"
  shows "\<exists>r. down_loop target_y original_y overlap cx dy dy_list = Some r \<and> set dy_list \<subseteq> set r
    \<and> (\<forall>py. dy + original_y \<le> py \<and> py < target_y
           \<longrightarrow> (\<exists>v. (cx, v) \<in> set r \<and> v \<le> py \<and> py < v + original_y))"
proof (induction "nat (target_y - dy - original_y + 1)" arbitrary: dy dy_list rule: less_induct)
  case less
  show ?case
  proof (cases "dy + original_y \<le> target_y")
    case True
    let ?dy = "dy + original_y - overlap"
    from assms True
    have "nat (target_y - ?dy - original_y + 1) < nat (target_y - dy - original_y + 1)"
      by simp
    from less.hyps [OF this, of "dy_list @ [(cx, ?dy)]"]
    obtain r where r: "down_loop target_y original_y overlap cx ?dy (dy_list @ [(cx, ?dy)]) = Some r"
      and sub: "set (dy_list @ [(cx, ?dy)]) \<subseteq> set r"
      and cov: "\<forall>py. ?dy + original_y \<le> py \<and> py < target_y
                 \<longrightarrow> (\<exists>v. (cx, v) \<in> set r \<and> v \<le> py \<and> py < v + original_y)"
      by blast
    have eq: "down_loop target_y original_y overlap cx dy dy_list = Some r"
      using True r by (subst down_loop.simps) simp
    have "\<exists>v. (cx, v) \<in> set r \<and> v \<le> py \<and> py < v + original_y"
      if "dy + original_y \<le> py" "py < target_y" for py
    proof (cases "?dy + original_y \<le> py")
      case True
      with cov that show ?thesis by blast
    next
      case False
      moreover have "(cx, ?dy) \<in> set r" using sub by simp
      moreover have "?dy \<le> py" using that assms by simp
      ultimately show ?thesis by (intro exI [of _ ?dy]) simp
    qed
    with eq sub show ?thesis by auto
  next
    case False
    then show ?thesis by (subst down_loop.simps) auto
  qed
qed

text \<open>A column with its centre tile and both vertical runs is covered from top to bottom.\<close>

lemma column_covered:
  assumes up: "\<forall>py. 0 \<le> py \<and> py < y \<longrightarrow> (\<exists>v. (cx, v) \<in> U \<and> v \<le> py \<and> py < v + h)"
    and down: "\<forall>py. y + h \<le> py \<and> py < H \<longrightarrow> (\<exists>v. (cx, v) \<in> D \<and> v \<le> py \<and> py < v + h)"
    and centre: "(cx, y) \<in> C"
    and px: "cx \<le> px" "px < cx + w"
    and py: "0 \<le> py" "py < H"
  shows "\<exists>t \<in> C \<union> U \<union> D. tile_holds w h t (px, py)"
proof -
  consider "py < y" | "y \<le> py" "py < y + h" | "y + h \<le> py" by linarith
  then show ?thesis
  proof cases
    case 1
    with up py obtain v where "(cx, v) \<in> U" "v \<le> py" "py < v + h" by blast
    with px show ?thesis by (intro bexI [of _ "(cx, v)"]) simp_all
  next
    case 2
    with px centre show ?thesis by (intro bexI [of _ "(cx, y)"]) simp_all
  next
    case 3
    with down py obtain v where "(cx, v) \<in> D" "v \<le> py" "py < v + h" by blast
    with px show ?thesis by (intro bexI [of _ "(cx, v)"]) simp_all
  qed
qed

lemma left_loop_covers:
  assumes o: "0 \<le> overlap" and ox: "overlap < original_x" and oy: "overlap < original_y"
  shows "\<exists>a b c. left_loop target_y original_x original_y overlap y lx lx_list uy_list dy_list
                    = Some (a, b, c)
      \<and> set lx_list \<subseteq> set a \<and> set uy_list \<subseteq> set b \<and> set dy_list \<subseteq> set c
      \<and> (\<forall>px py. 0 \<le> px \<and> px < lx \<and> 0 \<le> py \<and> py < target_y
            \<longrightarrow> (\<exists>t \<in> set a \<union> set b \<union> set c. tile_holds original_x original_y t (px, py)))"
proof (induction "nat lx" arbitrary: lx lx_list uy_list dy_list rule: less_induct)
  case less
  show ?case
  proof (cases "0 < lx")
    case True
    let ?lx = "lx - original_x + overlap"
    from up_loop_covers [OF o oy, of ?lx y uy_list]
    obtain u where u: "up_loop original_y overlap ?lx y uy_list = Some u"
      and usub: "set uy_list \<subseteq> set u"
      and ucov: "\<forall>py. 0 \<le> py \<and> py < y \<longrightarrow> (\<exists>v. (?lx, v) \<in> set u \<and> v \<le> py \<and> py < v + original_y)"
      by blast
    from down_loop_covers [OF o oy, of target_y ?lx y dy_list]
    obtain d where d: "down_loop target_y original_y overlap ?lx y dy_list = Some d"
      and dsub: "set dy_list \<subseteq> set d"
      and dcov: "\<forall>py. y + original_y \<le> py \<and> py < target_y
                  \<longrightarrow> (\<exists>v. (?lx, v) \<in> set d \<and> v \<le> py \<and> py < v + original_y)"
      by blast
    from ox True have "nat ?lx < nat lx" by simp
    from less.hyps [OF this, of "lx_list @ [(?lx, y)]" u d]
    obtain a b c where
      rec: "left_loop target_y original_x original_y overlap y ?lx (lx_list @ [(?lx, y)]) u d
              = Some (a, b, c)"
      and asub: "set (lx_list @ [(?lx, y)]) \<subseteq> set a"
      and bsub: "set u \<subseteq> set b" and csub: "set d \<subseteq> set c"
      and cov: "\<forall>px py. 0 \<le> px \<and> px < ?lx \<and> 0 \<le> py \<and> py < target_y
            \<longrightarrow> (\<exists>t \<in> set a \<union> set b \<union> set c. tile_holds original_x original_y t (px, py))"
      by blast
    have eq: "left_loop target_y original_x original_y overlap y lx lx_list uy_list dy_list
                = Some (a, b, c)"
      using True u d rec by (subst left_loop.simps) simp
    have "\<exists>t \<in> set a \<union> set b \<union> set c. tile_holds original_x original_y t (px, py)"
      if "0 \<le> px" "px < lx" "0 \<le> py" "py < target_y" for px py
    proof (cases "px < ?lx")
      case True
      with cov that show ?thesis by blast
    next
      case False
      have ucov': "\<forall>py. 0 \<le> py \<and> py < y \<longrightarrow> (\<exists>v. (?lx, v) \<in> set b \<and> v \<le> py \<and> py < v + original_y)"
        using ucov bsub by blast
      have dcov': "\<forall>py. y + original_y \<le> py \<and> py < target_y
                  \<longrightarrow> (\<exists>v. (?lx, v) \<in> set c \<and> v \<le> py \<and> py < v + original_y)"
        using dcov csub by blast
      have "(?lx, y) \<in> set a" using asub by simp
      moreover have "?lx \<le> px" using False by simp
      moreover have "px < ?lx + original_x" using that o by simp
      ultimately show ?thesis
        using column_covered [OF ucov' dcov', of "set a" px original_x py] that by blast
    qed
    moreover have "set lx_list \<subseteq> set a" using asub by simp
    moreover have "set uy_list \<subseteq> set b" using usub bsub by blast
    moreover have "set dy_list \<subseteq> set c" using dsub csub by blast
    ultimately show ?thesis using eq by blast
  next
    case False
    then have "left_loop target_y original_x original_y overlap y lx lx_list uy_list dy_list
                = Some (lx_list, uy_list, dy_list)"
      by (subst left_loop.simps) simp
    with False show ?thesis by auto
  qed
qed

lemma right_loop_covers:
  assumes o: "0 \<le> overlap" and ox: "overlap < original_x" and oy: "overlap < original_y"
  shows "\<exists>a b c. right_loop target_x target_y original_x original_y overlap y rx rx_list uy_list dy_list
                    = Some (a, b, c)
      \<and> set rx_list \<subseteq> set a \<and> set uy_list \<subseteq> set b \<and> set dy_list \<subseteq> set c
      \<and> (\<forall>px py. rx + original_x \<le> px \<and> px < target_x \<and> 0 \<le> py \<and> py < target_y
            \<longrightarrow> (\<exists>t \<in> set a \<union> set b \<union> set c. tile_holds original_x original_y t (px, py)))"
proof (induction "nat (target_x - rx - original_x + 1)" arbitrary: rx rx_list uy_list dy_list
    rule: less_induct)
  case less
  show ?case
  proof (cases "rx + original_x \<le> target_x")
    case True
    let ?rx = "rx + original_x - overlap"
    from up_loop_covers [OF o oy, of ?rx y uy_list]
    obtain u where u: "up_loop original_y overlap ?rx y uy_list = Some u"
      and usub: "set uy_list \<subseteq> set u"
      and ucov: "\<forall>py. 0 \<le> py \<and> py < y \<longrightarrow> (\<exists>v. (?rx, v) \<in> set u \<and> v \<le> py \<and> py < v + original_y)"
      by blast
    from down_loop_covers [OF o oy, of target_y ?rx y dy_list]
    obtain d where d: "down_loop target_y original_y overlap ?rx y dy_list = Some d"
      and dsub: "set dy_list \<subseteq> set d"
      and dcov: "\<forall>py. y + original_y \<le> py \<and> py < target_y
                  \<longrightarrow> (\<exists>v. (?rx, v) \<in> set d \<and> v \<le> py \<and> py < v + original_y)"
      by blast
    from ox True
    have "nat (target_x - ?rx - original_x + 1) < nat (target_x - rx - original_x + 1)"
      by simp
    from less.hyps [OF this, of "rx_list @ [(?rx, y)]" u d]
    obtain a b c where
      rec: "right_loop target_x target_y original_x original_y overlap y ?rx (rx_list @ [(?rx, y)]) u d
              = Some (a, b, c)"
      and asub: "set (rx_list @ [(?rx, y)]) \<subseteq> set a"
      and bsub: "set u \<subseteq> set b" and csub: "set d \<subseteq> set c"
      and cov: "\<forall>px py. ?rx + original_x \<le> px \<and> px < target_x \<and> 0 \<le> py \<and> py < target_y
            \<longrightarrow> (\<exists>t \<in> set a \<union> set b \<union> set c. tile_holds original_x original_y t (px, py))"
      by blast
    have eq: "right_loop target_x target_y original_x original_y overlap y rx rx_list uy_list dy_list
                = Some (a, b, c)"
      using True u d rec by (subst right_loop.simps) simp
    have "\<exists>t \<in> set a \<union> set b \<union> set c. tile_holds original_x original_y t (px, py)"
      if "rx + original_x \<le> px" "px < target_x" "0 \<le> py" "py < target_y" for px py
    proof (cases "?rx + original_x \<le> px")
      case True
      with cov that show ?thesis by blast
    next
      case False
      have ucov': "\<forall>py. 0 \<le> py \<and> py < y \<longrightarrow> (\<exists>v. (?rx, v) \<in> set b \<and> v \<le> py \<and> py < v + original_y)"
        using ucov bsub by blast
      have dcov': "\<forall>py. y + original_y \<le> py \<and> py < target_y
                  \<longrightarrow> (\<exists>v. (?rx, v) \<in> set c \<and> v \<le> py \<and> py < v + original_y)"
        using dcov csub by blast
      have "(?rx, y) \<in> set a" using asub by simp
      moreover have "px < ?rx + original_x" using False by simp
      moreover have "?rx \<le> px" using that o by simp
      ultimately show ?thesis
        using column_covered [OF ucov' dcov', of "set a" px original_x py] that by blast
    qed
    moreover have "set rx_list \<subseteq> set a" using asub by simp
    moreover have "set uy_list \<subseteq> set b" using usub bsub by blast
    moreover have "set dy_list \<subseteq> set c" using dsub csub by blast
    ultimately show ?thesis using eq by blast
  next
    case False
    then have "right_loop target_x target_y original_x original_y overlap y rx rx_list uy_list dy_list
                = Some (rx_list, uy_list, dy_list)"
      by (subst right_loop.simps) simp
    with False show ?thesis by auto
  qed
qed

lemma left_loop_terminates:
  assumes ox: "overlap < original_x" and oy: "overlap < original_y"
  shows "\<exists>r. left_loop target_y original_x original_y overlap y lx lx_list uy_list dy_list = Some r"
proof (induction "nat lx" arbitrary: lx lx_list uy_list dy_list rule: less_induct)
  case less
  show ?case
  proof (cases "0 < lx")
    case True
    let ?lx = "lx - original_x + overlap"
    from up_loop_terminates [OF oy]
    obtain u where u: "up_loop original_y overlap ?lx y uy_list = Some u" by blast
    from down_loop_terminates [OF oy]
    obtain d where d: "down_loop target_y original_y overlap ?lx y dy_list = Some d" by blast
    from ox True have "nat ?lx < nat lx" by simp
    from less.hyps [OF this, of "lx_list @ [(?lx, y)]" u d] True u d show ?thesis
      by (subst left_loop.simps) simp
  next
    case False
    then show ?thesis by (subst left_loop.simps) simp
  qed
qed

lemma right_loop_terminates:
  assumes ox: "overlap < original_x" and oy: "overlap < original_y"
  shows "\<exists>r. right_loop target_x target_y original_x original_y overlap y rx rx_list uy_list dy_list
               = Some r"
proof (induction "nat (target_x - rx - original_x + 1)" arbitrary: rx rx_list uy_list dy_list
    rule: less_induct)
  case less
  show ?case
  proof (cases "rx + original_x \<le> target_x")
    case True
    let ?rx = "rx + original_x - overlap"
    from up_loop_terminates [OF oy]
    obtain u where u: "up_loop original_y overlap ?rx y uy_list = Some u" by blast
    from down_loop_terminates [OF oy]
    obtain d where d: "down_loop target_y original_y overlap ?rx y dy_list = Some d" by blast
    from ox True
    have "nat (target_x - ?rx - original_x + 1) < nat (target_x - rx - original_x + 1)"
      by simp
    from less.hyps [OF this, of "rx_list @ [(?rx, y)]" u d] True u d show ?thesis
      by (subst right_loop.simps) simp
  next
    case False
    then show ?thesis by (subst right_loop.simps) simp
  qed
qed

text \<open>
  A loop entered with a step that does not move towards its bound never returns.
\<close>

lemma up_loop_stuck:
  "up_loop original_y overlap cx uy uy_list = Some r \<Longrightarrow> \<not> (original_y \<le> overlap \<and> 0 < uy)"
proof (induction rule: up_loop.raw_induct [rotated 1, consumes 1])
  case (1 up_loop original_y overlap cx uy uy_list r)
  show ?case
  proof
    assume a: "original_y \<le> overlap \<and> 0 < uy"
    with 1(2) have "up_loop original_y overlap cx (uy - original_y + overlap)
             (uy_list @ [(cx, uy - original_y + overlap)]) = Some r"
      by simp
    from 1(1) [OF this] a show False by simp
  qed
qed

lemma down_loop_stuck:
  "down_loop target_y original_y overlap cx dy dy_list = Some r
     \<Longrightarrow> \<not> (original_y \<le> overlap \<and> dy + original_y \<le> target_y)"
proof (induction rule: down_loop.raw_induct [rotated 1, consumes 1])
  case (1 down_loop target_y original_y overlap cx dy dy_list r)
  show ?case
  proof
    assume a: "original_y \<le> overlap \<and> dy + original_y \<le> target_y"
    with 1(2) have "down_loop target_y original_y overlap cx (dy + original_y - overlap)
             (dy_list @ [(cx, dy + original_y - overlap)]) = Some r"
      by simp
    from 1(1) [OF this] a show False by simp
  qed
qed

lemma left_loop_stuck:
  "left_loop target_y original_x original_y overlap y lx lx_list uy_list dy_list = Some r
     \<Longrightarrow> \<not> (original_x \<le> overlap \<and> 0 < lx)"
proof (induction rule: left_loop.raw_induct [rotated 1, consumes 1])
  case (1 left_loop target_y original_x original_y overlap y lx lx_list uy_list dy_list r)
  show ?case
  proof
    assume a: "original_x \<le> overlap \<and> 0 < lx"
    with 1(2) obtain u d where
      "left_loop target_y original_x original_y overlap y (lx - original_x + overlap)
         (lx_list @ [(lx - original_x + overlap, y)]) u d = Some r"
      by (auto simp: bind_eq_Some_conv)
    from 1(1) [OF this] a show False by simp
  qed
qed

lemma right_loop_stuck:
  "right_loop target_x target_y original_x original_y overlap y rx rx_list uy_list dy_list = Some r
     \<Longrightarrow> \<not> (original_x \<le> overlap \<and> rx + original_x \<le> target_x)"
proof (induction rule: right_loop.raw_induct [rotated 1, consumes 1])
  case (1 right_loop target_x target_y original_x original_y overlap y rx rx_list uy_list dy_list r)
  show ?case
  proof
    assume a: "original_x \<le> overlap \<and> rx + original_x \<le> target_x"
    with 1(2) obtain u d where
      "right_loop target_x target_y original_x original_y overlap y (rx + original_x - overlap)
         (rx_list @ [(rx + original_x - overlap, y)]) u d = Some r"
      by (auto simp: bind_eq_Some_conv)
    from 1(1) [OF this] a show False by simp
  qed
qed

text \<open>The whole placement: every pixel of the canvas lies in some tile.\<close>

lemma covered_map:
  "covered (map (\<lambda>(x, y). ((x, y, x + w, y + h), x, y)) cs) (px, py)
     = (\<exists>t \<in> set cs. tile_holds w h t (px, py))"
  by (induction cs) (auto simp: covered_def)

lemma grid_coords_covers:
  assumes o: "0 \<le> overlap" and ox: "overlap < original_x" and oy: "overlap < original_y"
  shows "\<exists>cs. grid_coords (target_x, target_y) (original_x, original_y) overlap = Some cs
     \<and> (\<forall>px py. 0 \<le> px \<and> px < target_x \<and> 0 \<le> py \<and> py < target_y
           \<longrightarrow> (\<exists>t \<in> set cs. tile_holds original_x original_y t (px, py)))"
proof -
  define x where "x = py_trunc (real_of_int target_x / 2) - py_trunc (real_of_int original_x / 2)"
  define y where "y = py_trunc (real_of_int target_y / 2) - py_trunc (real_of_int original_y / 2)"
  from up_loop_covers [OF o oy, of x y "[]"]
  obtain u where u: "up_loop original_y overlap x y [] = Some u"
    and ucov: "\<forall>py. 0 \<le> py \<and> py < y \<longrightarrow> (\<exists>v. (x, v) \<in> set u \<and> v \<le> py \<and> py < v + original_y)"
    by blast
  from down_loop_covers [OF o oy, of target_y x y "[]"]
  obtain d where d: "down_loop target_y original_y overlap x y [] = Some d"
    and dcov: "\<forall>py. y + original_y \<le> py \<and> py < target_y
                 \<longrightarrow> (\<exists>v. (x, v) \<in> set d \<and> v \<le> py \<and> py < v + original_y)"
    by blast
  from left_loop_covers [OF o ox oy, of target_y y x "[]" u d]
  obtain a b c where l: "left_loop target_y original_x original_y overlap y x [] u d = Some (a, b, c)"
    and ub: "set u \<subseteq> set b" and dc: "set d \<subseteq> set c"
    and lcov: "\<forall>px py. 0 \<le> px \<and> px < x \<and> 0 \<le> py \<and> py < target_y
            \<longrightarrow> (\<exists>t \<in> set a \<union> set b \<union> set c. tile_holds original_x original_y t (px, py))"
    by blast
  from right_loop_covers [OF o ox oy, of target_x target_y y x "[]" b c]
  obtain a' b' c' where
    r: "right_loop target_x target_y original_x original_y overlap y x [] b c = Some (a', b', c')"
    and bb: "set b \<subseteq> set b'" and cc: "set c \<subseteq> set c'"
    and rcov: "\<forall>px py. x + original_x \<le> px \<and> px < target_x \<and> 0 \<le> py \<and> py < target_y
            \<longrightarrow> (\<exists>t \<in> set a' \<union> set b' \<union> set c'. tile_holds original_x original_y t (px, py))"
    by blast
  let ?cs = "rev c' @ rev b' @ rev a' @ rev a @ [(x, y)]"
  have eq: "grid_coords (target_x, target_y) (original_x, original_y) overlap = Some ?cs"
    by (simp add: grid_coords_def Let_def x_def [symmetric] y_def [symmetric] u d l r)
  have "\<exists>t \<in> set ?cs. tile_holds original_x original_y t (px, py)"
    if "0 \<le> px" "px < target_x" "0 \<le> py" "py < target_y" for px py
  proof -
    consider "px < x" | "x \<le> px" "px < x + original_x" | "x + original_x \<le> px" by linarith
    then show ?thesis
    proof cases
      case 1
      with lcov that obtain t where "t \<in> set a \<union> set b \<union> set c"
        "tile_holds original_x original_y t (px, py)" by blast
      with bb cc show ?thesis by auto
    next
      case 2
      have ucov': "\<forall>py. 0 \<le> py \<and> py < y \<longrightarrow> (\<exists>v. (x, v) \<in> set b' \<and> v \<le> py \<and> py < v + original_y)"
        using ucov ub bb by blast
      have dcov': "\<forall>py. y + original_y \<le> py \<and> py < target_y
                 \<longrightarrow> (\<exists>v. (x, v) \<in> set c' \<and> v \<le> py \<and> py < v + original_y)"
        using dcov dc cc by blast
      have "(x, y) \<in> {(x, y)}" by simp
      from column_covered [OF ucov' dcov' this 2 that(3,4)]
      show ?thesis by auto
    next
      case 3
      with rcov that obtain t where "t \<in> set a' \<union> set b' \<union> set c'"
        "tile_holds original_x original_y t (px, py)" by blast
      then show ?thesis by auto
    qed
  qed
  with eq show ?thesis by blast
qed

text \<open>
  With an overlap of at least the tile height and a centre tile below the top edge, the
  first loop never returns, and neither does \<open>grid_coords\<close>.
\<close>

lemma grid_coords_stuck_up:
  assumes "original_y \<le> overlap"
    and "0 < py_trunc (real_of_int target_y / 2) - py_trunc (real_of_int original_y / 2)"
  shows "grid_coords (target_x, target_y) (original_x, original_y) overlap = None"
proof -
  have "up_loop original_y overlap cx
          (py_trunc (real_of_int target_y / 2) - py_trunc (real_of_int original_y / 2)) [] = None" for cx
    using up_loop_stuck [of original_y overlap cx _ "[]"] assms by (meson option.exhaust)
  then show ?thesis by (simp add: grid_coords_def Let_def)
qed

text \<open>
  C4, as stated: for any canvas size, tile size and overlap the tiles of \<open>grid_slice\<close>
  cover the canvas. It fails for a negative overlap, where neighbouring tiles are further
  apart than a tile is wide: on a canvas of 8 by 8 with tiles of 4 by 4 and an overlap of
  \<open>-2\<close> the columns start at \<open>-4\<close>, 2 and 8, and the pixel \<open>(0, 0)\<close> is in no
  tile. It fails for an overlap as large as the tile, where the first loop never returns
  and no tile is produced at all.
\<close>

theorem grid_slice_gap_counterexample:
  "grid_slice (8, 8) (- 2) (4, 4) =
     Some [((8, 8, 12, 12), 8, 8), ((- 4, 8, 0, 12), - 4, 8), ((2, 8, 6, 12), 2, 8),
           ((8, - 4, 12, 0), 8, - 4), ((- 4, - 4, 0, 0), - 4, - 4), ((2, - 4, 6, 0), 2, - 4),
           ((8, 2, 12, 6), 8, 2), ((- 4, 2, 0, 6), - 4, 2), ((2, 2, 6, 6), 2, 2)]
   \<and> \<not> covered [((8, 8, 12, 12), 8, 8), ((- 4, 8, 0, 12), - 4, 8), ((2, 8, 6, 12), 2, 8),
           ((8, - 4, 12, 0), 8, - 4), ((- 4, - 4, 0, 0), - 4, - 4), ((2, - 4, 6, 0), 2, - 4),
           ((8, 2, 12, 6), 8, 2), ((- 4, 2, 0, 6), - 4, 2), ((2, 2, 6, 6), 2, 2)] (0, 0)
   \<and> grid_slice (8, 8) 4 (4, 4) = None"
proof -
  have "grid_coords (8, 8) (4, 4) 4 = None"
    by (rule grid_coords_stuck_up) (simp_all add: py_trunc_def)
  then have "grid_slice (8, 8) 4 (4, 4) = None"
    by (simp add: grid_slice_def)
  moreover have "grid_coords (8, 8) (4, 4) (- 2) =
      Some [(8, 8), (- 4, 8), (2, 8), (8, - 4), (- 4, - 4), (2, - 4), (8, 2), (- 4, 2), (2, 2)]"
    by (simp add: grid_coords_def py_trunc_def up_loop.simps down_loop.simps left_loop.simps
        right_loop.simps)
  ultimately show ?thesis
    by (simp add: grid_slice_def covered_def)
qed

text \<open>
  C4, amended: for any canvas size, any tile size and any overlap that is not negative and
  is smaller than the width and the height of a tile, \<open>grid_slice\<close> returns, and the
  boxes of its slices cover every pixel of the canvas.
\<close>

theorem grid_slice_covers:
  assumes "0 \<le> overlap" "overlap < width" "overlap < height"
  shows "\<exists>slices. grid_slice (target_x, target_y) overlap (width, height) = Some slices
     \<and> (\<forall>px py. 0 \<le> px \<and> px < target_x \<and> 0 \<le> py \<and> py < target_y
           \<longrightarrow> covered slices (px, py))"
proof -
  from grid_coords_covers [OF assms, of target_x target_y]
  obtain cs where cs: "grid_coords (target_x, target_y) (width, height) overlap = Some cs"
    and cov: "\<forall>px py. 0 \<le> px \<and> px < target_x \<and> 0 \<le> py \<and> py < target_y
           \<longrightarrow> (\<exists>t \<in> set cs. tile_holds width height t (px, py))"
    by blast
  have "grid_slice (target_x, target_y) overlap (width, height)
          = Some (map (\<lambda>(x, y). ((x, y, x + width, y + height), x, y)) cs)"
    by (simp add: grid_slice_def cs)
  with cov show ?thesis by (simp add: covered_map)
qed

theorem grid_slice_covers_witness:
  "(0::int) \<le> 64 \<and> (64::int) < 512 \<and> (64::int) < 384
   \<and> (\<exists>slices. grid_slice (1024, 768) 64 (512, 384) = Some slices
        \<and> (\<forall>px py. 0 \<le> px \<and> px < 1024 \<and> 0 \<le> py \<and> py < 768 \<longrightarrow> covered slices (px, py)))"
  using grid_slice_covers [of 64 512 384 1024 768] by simp

text \<open>
  C10: \<open>grid_coords\<close> returns whenever the overlap is smaller than the width and the
  height of a tile; the sizes need not even be positive for that. When the overlap is at
  least the tile height, a vertical loop that is entered never returns, and when it is at
  least the tile width, a horizontal loop that is entered never returns: the step does not
  move the coordinate towards the bound.
\<close>

theorem grid_coords_terminates:
  "(overlap < original_x \<and> overlap < original_y
      \<longrightarrow> (\<exists>r. grid_coords (target_x, target_y) (original_x, original_y) overlap = Some r))
   \<and> (original_y \<le> overlap \<and> 0 < uy \<longrightarrow> up_loop original_y overlap cx uy uy_list = None)
   \<and> (original_y \<le> overlap \<and> dy + original_y \<le> target_y
        \<longrightarrow> down_loop target_y original_y overlap cx dy dy_list = None)
   \<and> (original_x \<le> overlap \<and> 0 < lx
        \<longrightarrow> left_loop target_y original_x original_y overlap y lx lx_list uy_list dy_list = None)
   \<and> (original_x \<le> overlap \<and> rx + original_x \<le> target_x
        \<longrightarrow> right_loop target_x target_y original_x original_y overlap y rx rx_list uy_list dy_list
              = None)"
proof (intro conjI impI)
  assume a: "overlap < original_x \<and> overlap < original_y"
  then have ox: "overlap < original_x" and oy: "overlap < original_y" by simp_all
  define x where "x = py_trunc (real_of_int target_x / 2) - py_trunc (real_of_int original_x / 2)"
  define y' where "y' = py_trunc (real_of_int target_y / 2) - py_trunc (real_of_int original_y / 2)"
  from up_loop_terminates [OF oy]
  obtain u where u: "up_loop original_y overlap x y' [] = Some u" by blast
  from down_loop_terminates [OF oy]
  obtain d where d: "down_loop target_y original_y overlap x y' [] = Some d" by blast
  from left_loop_terminates [OF ox oy]
  obtain l where l: "left_loop target_y original_x original_y overlap y' x [] u d = Some l" by blast
  obtain a b c where abc: "l = (a, b, c)" by (cases l) auto
  from right_loop_terminates [OF ox oy]
  obtain r where r: "right_loop target_x target_y original_x original_y overlap y' x [] b c = Some r"
    by blast
  obtain a' b' c' where abc': "r = (a', b', c')" by (cases r) auto
  show "\<exists>r. grid_coords (target_x, target_y) (original_x, original_y) overlap = Some r"
    using u d l r
    by (simp add: grid_coords_def Let_def x_def [symmetric] y'_def [symmetric] abc abc')
next
  assume "original_y \<le> overlap \<and> 0 < uy"
  then show "up_loop original_y overlap cx uy uy_list = None"
    using up_loop_stuck [of original_y overlap cx uy uy_list] by (meson option.exhaust)
next
  assume "original_y \<le> overlap \<and> dy + original_y \<le> target_y"
  then show "down_loop target_y original_y overlap cx dy dy_list = None"
    using down_loop_stuck [of target_y original_y overlap cx dy dy_list] by (meson option.exhaust)
next
  assume "original_x \<le> overlap \<and> 0 < lx"
  then show "left_loop target_y original_x original_y overlap y lx lx_list uy_list dy_list = None"
    using left_loop_stuck [of target_y original_x original_y overlap y lx lx_list uy_list dy_list]
    by (meson option.exhaust)
next
  assume "original_x \<le> overlap \<and> rx + original_x \<le> target_x"
  then show "right_loop target_x target_y original_x original_y overlap y rx rx_list uy_list dy_list
              = None"
    using right_loop_stuck [of target_x target_y original_x original_y overlap y rx rx_list uy_list dy_list]
    by (meson option.exhaust)
qed

theorem grid_coords_terminates_witness:
  "(64::int) < 512 \<and> (64::int) < 384
   \<and> (\<exists>r. grid_coords (1024, 768) (512, 384) 64 = Some r)
   \<and> (4::int) \<le> 4 \<and> (0::int) < 2 \<and> (2::int) + 4 \<le> 8
   \<and> up_loop 4 4 2 2 [] = None
   \<and> down_loop 8 4 4 2 2 [] = None
   \<and> left_loop 8 4 4 4 2 2 [] [] [] = None
   \<and> right_loop 8 8 4 4 4 2 2 [] [] [] = None"
  using
    grid_coords_terminates [where overlap = 64 and original_x = 512 and original_y = 384
      and target_x = 1024 and target_y = 768 and uy = 0 and cx = 0 and uy_list = "[]"
      and dy = 0 and dy_list = "[]" and lx = 0 and lx_list = "[]" and rx = 0 and rx_list = "[]"
      and y = 0]
    grid_coords_terminates [where overlap = 4 and original_x = 4 and original_y = 4
      and target_x = 8 and target_y = 8 and uy = 2 and cx = 2 and uy_list = "[]"
      and dy = 2 and dy_list = "[]" and lx = 2 and lx_list = "[]" and rx = 2 and rx_list = "[]"
      and y = 2]
  by simp

section \<open>Facts about the alpha mask\<close>

text \<open>
  While the rings stay nested, the loop leaves on every pixel the colour of the last ring that
  holds it: ring \<open>i\<close> is painted with \<open>4 * i\<close>, and the pixels further in than the last
  ring keep the colour of that ring.
\<close>

lemma im_size_rectangle: "im_size (rectangle im shape fill) = im_size im"
  by (cases shape) (auto simp: rectangle_def split: prod.splits)

lemma alpha_loop_pixel:
  assumes "0 \<le> x" "x < side_x" "0 \<le> y" "y < side_y"
    and "2 * (overlap - 1) \<le> side_x" "2 * (overlap - 1) \<le> side_y"
    and "im_size alpha = (side_x, side_y)" "0 \<le> i"
  shows "getpixel (alpha_loop side_x side_y overlap (4 * i) i ((side_x - i, side_y - i), (i, i)) alpha) x y
     = (if i < overlap \<and> i \<le> ring side_x side_y x y
        then clip8 (4 * min (overlap - 1) (ring side_x side_y x y))
        else getpixel alpha x y)"
  using assms
proof (induction "nat (overlap - i)" arbitrary: i alpha)
  case 0
  then have "\<not> i < overlap" by simp
  then show ?case by (subst alpha_loop.simps) simp
next
  case (Suc n)
  then have lt: "i < overlap" by linarith
  let ?alpha = "rectangle alpha ((side_x - i, side_y - i), (i, i)) (4 * i)"
  have n: "n = nat (overlap - (i + 1))" using Suc.hyps(2) by linarith
  have sz: "im_size ?alpha = (side_x, side_y)" using Suc.prems by (simp add: im_size_rectangle)
  have step: "alpha_loop side_x side_y overlap (4 * i) i ((side_x - i, side_y - i), (i, i)) alpha
      = alpha_loop side_x side_y overlap (4 * (i + 1)) (i + 1)
          ((side_x - (i + 1), side_y - (i + 1)), (i + 1, i + 1)) ?alpha"
    using lt by (subst alpha_loop.simps) (simp add: algebra_simps)
  have IH: "getpixel (alpha_loop side_x side_y overlap (4 * (i + 1)) (i + 1)
          ((side_x - (i + 1), side_y - (i + 1)), (i + 1, i + 1)) ?alpha) x y
     = (if i + 1 < overlap \<and> i + 1 \<le> ring side_x side_y x y
        then clip8 (4 * min (overlap - 1) (ring side_x side_y x y))
        else getpixel ?alpha x y)"
    using Suc.hyps(1) [OF n] Suc.prems sz by simp
  have px: "getpixel ?alpha x y = (if i \<le> ring side_x side_y x y then clip8 (4 * i) else getpixel alpha x y)"
    using Suc.prems lt by (auto simp: rectangle_def ring_def)
  show ?case
    unfolding step IH px using lt by (auto simp: ring_def intro!: arg_cong [of _ _ clip8])
qed


lemma alpha_mask_pixel:
  assumes "0 \<le> x" "x < side_x" "0 \<le> y" "y < side_y"
    and "1 \<le> overlap" "overlap \<le> 64"
    and "2 * (overlap - 1) \<le> side_x" "2 * (overlap - 1) \<le> side_y"
  shows "getpixel (alpha_mask side_x side_y overlap) x y
           = 4 * min (overlap - 1) (ring side_x side_y x y)"
proof -
  have r: "0 \<le> ring side_x side_y x y" using assms by (simp add: ring_def)
  have "getpixel (alpha_mask side_x side_y overlap) x y
          = clip8 (4 * min (overlap - 1) (ring side_x side_y x y))"
    using alpha_loop_pixel [of x side_x y side_y overlap "Image_new (side_x, side_y) 255" 0] assms r
    by (simp add: alpha_mask_def Image_new_def)
  also have "\<dots> = 4 * min (overlap - 1) (ring side_x side_y x y)"
    using assms r by (simp add: clip8_def min_def)
  finally show ?thesis .
qed

text \<open>
  C7. The claim: the mask is 0 on its outermost pixels and rises by a fixed step per ring to
  fully opaque in the middle, over the width of the overlap. The mask starts at \<open>0xFF\<close>,
  but every ring is painted as a filled rectangle, so nothing of that is left: the middle
  carries the colour of the last ring, \<open>4 * (overlap - 1)\<close>. For tiles of 512 by 512 that
  is 252 with an overlap of 64 and 124 with an overlap of 32, not 255. The corners of a
  rectangle are both included, so the pixels of the right and lower edges belong to ring 1
  and carry 4, while those of the left and upper edges carry 0.
\<close>

theorem alpha_mask_centre_not_opaque:
  "getpixel (alpha_mask 512 512 64) 256 256 = 252
   \<and> getpixel (alpha_mask 512 512 64) 0 256 = 0
   \<and> getpixel (alpha_mask 512 512 64) 511 256 = 4
   \<and> getpixel (alpha_mask 512 512 32) 256 256 = 124"
  by (simp add: alpha_mask_pixel ring_def)


end

